theory Spec2Isabelle
  imports Complex_Main "HOL-Library.Sublist"
begin

section \<open>Python dictionaries\<close>

text \<open>
  A Python \<open>dict\<close> iterates in insertion order, and \<open>get_exit_status\<close> depends on that
  order, so a dictionary is an association list with distinct keys. \<open>d[k] = v\<close> keeps the
  position of a key that is present and appends a new key; \<open>del d[k]\<close> keeps the order of
  the others.
\<close>

type_synonym ('k, 'v) dict = "('k \<times> 'v) list"

fun dict_set :: "'k \<Rightarrow> 'v \<Rightarrow> ('k, 'v) dict \<Rightarrow> ('k, 'v) dict" where
  "dict_set k v [] = [(k, v)]"
| "dict_set k v ((k', v') # d) = (if k' = k then (k, v) # d else (k', v') # dict_set k v d)"

definition dict_get :: "'k \<Rightarrow> ('k, 'v) dict \<Rightarrow> 'v option" where
  "dict_get k d = map_of d k"

definition dict_contains :: "'k \<Rightarrow> ('k, 'v) dict \<Rightarrow> bool" where
  "dict_contains k d = (k \<in> set (map fst d))"

definition dict_del :: "'k \<Rightarrow> ('k, 'v) dict \<Rightarrow> ('k, 'v) dict" where
  "dict_del k d = filter (\<lambda>kv. fst kv \<noteq> k) d"

definition dict_values :: "('k, 'v) dict \<Rightarrow> 'v list" where
  "dict_values d = map snd d"


section \<open>Data model of drekar_launch.py\<close>

datatype py_error =
    AssertionError | ArgumentError | KeyError | IndexError | ProcessLookupError
  | FileNotFoundError | ProgramNotFound

record DrekarTask =
  name :: string
  program :: string
  cwd :: string
  args :: "string list"
  restart :: bool
  restart_backoff :: real
  tags :: "string list"
  environment :: "(string, string) dict"
  start_delay :: real
  quit_on_terminate :: bool

datatype ProcessState =
  STOPPED | START_PENDING | STOP_PENDING | RUNNING | CONTINUE_PENDING | PAUSE_PENDING | PAUSED

text \<open>
  \<open>DrekarSubprocessImpl\<close>: the handle of a spawned child, its process id and (on win32)
  its job object.
\<close>

record DrekarSubprocessImpl =
  pid :: nat
  job_handle :: "nat option"

text \<open>
  \<open>DrekarProcess\<close>, the supervisor of one child. \<open>__init__\<close> sets \<open>_keep_going = True\<close>,
  \<open>_process = None\<close>, \<open>_term_attempts = 0\<close> and \<open>exit_status = -1\<close>.
\<close>

record DrekarProcess =
  task_launch :: DrekarTask
  keep_going :: bool
  process :: "DrekarSubprocessImpl option"
  term_attempts :: int
  exit_status :: int

definition DrekarProcess_init :: "DrekarTask \<Rightarrow> DrekarProcess" where
  "DrekarProcess_init s =
     \<lparr>task_launch = s, keep_going = True, process = None, term_attempts = 0, exit_status = -1\<rparr>"

text \<open>\<open>DrekarCore\<close>, the group: the tasks by name, the closed flag, the children by name.\<close>

record DrekarCore =
  task_launches :: "(string, DrekarTask) dict"
  closed_flag :: bool
  subprocesses :: "(string, DrekarProcess) dict"

definition DrekarCore_init :: "DrekarTask list \<Rightarrow> DrekarCore" where
  "DrekarCore_init tasks =
     \<lparr>task_launches = fold (\<lambda>s d. dict_set (name s) s d) tasks [],
      closed_flag = False, subprocesses = []\<rparr>"

section \<open>The operating system, as the code sees it\<close>

datatype sys_platform = Win32 | Linux | Other_posix

text \<open>
  What the system calls of \<open>send_term\<close> answer. \<open>job_process_ids\<close> is
  \<open>QueryInformationJobObject\<close> for the process id list (\<open>None\<close>: the call fails);
  \<open>top_windows\<close> are the windows \<open>EnumWindows\<close> visits, each with the process that owns it
  and the \<open>GetParent\<close> handle (0: none); \<open>enum_windows_ok\<close> is the result of
  \<open>EnumWindows\<close>; \<open>message_windows\<close> is the chain \<open>FindWindowExW(HWND_MESSAGE, ...)\<close>
  walks, each with its owner; \<open>getpgid\<close> is \<open>os.getpgid\<close> (\<open>None\<close>: it raises);
  \<open>killpg_raises\<close> says for which groups \<open>os.killpg\<close> raises.
\<close>

record os_env =
  platform :: sys_platform
  job_process_ids :: "nat option \<Rightarrow> nat list option"
  top_windows :: "(nat \<times> nat \<times> nat) list"
  enum_windows_ok :: bool
  message_windows :: "(nat \<times> nat) list"
  getpgid :: "nat \<Rightarrow> nat option"
  killpg_raises :: "nat \<Rightarrow> bool"

datatype os_action =
    PostMessageW nat nat
  | GenerateConsoleCtrlEvent nat nat
  | Killpg nat nat

definition WM_CLOSE :: nat where
  "WM_CLOSE = 16"

definition SIGINT :: nat where
  "SIGINT = 2"

text \<open>\<open>_win32_find_message_hwnds(pids)\<close>: the message-only windows owned by one of pids.\<close>

definition win32_find_message_hwnds :: "os_env \<Rightarrow> nat list \<Rightarrow> nat list" where
  "win32_find_message_hwnds os pids =
     map fst (filter (\<lambda>w. snd w \<in> set pids) (message_windows os))"

text \<open>
  \<open>_win32_find_main_hwnds(pids)\<close>: \<open>EnumWindows\<close> is given \<open>pids[0]\<close> (IndexError on an
  empty list) and the callback keeps the windows of that process; when \<open>EnumWindows\<close>
  fails the list is returned as it is, otherwise without the windows that have a parent.
\<close>

definition win32_find_main_hwnds :: "os_env \<Rightarrow> nat list \<Rightarrow> py_error + nat list" where
  "win32_find_main_hwnds os pids =
     (case pids of
        [] \<Rightarrow> Inl IndexError
      | p0 # _ \<Rightarrow>
          (let hwnds = filter (\<lambda>w. fst (snd w) = p0) (top_windows os) in
           if \<not> enum_windows_ok os then Inr (map fst hwnds)
           else Inr (map fst (filter (\<lambda>w. snd (snd w) = 0) hwnds))))"

text \<open>\<open>_win32_send_wm_close_hwnd_message(pid)\<close>: main windows first, else message windows.\<close>

definition win32_send_wm_close_hwnd_message :: "os_env \<Rightarrow> nat list \<Rightarrow> py_error + os_action list" where
  "win32_send_wm_close_hwnd_message os pids =
     (case win32_find_main_hwnds os pids of
        Inl e \<Rightarrow> Inl e
      | Inr hwnds \<Rightarrow>
          (let hwnds' = (if hwnds = [] then win32_find_message_hwnds os pids else hwnds)
           in Inr (map (\<lambda>h. PostMessageW h WM_CLOSE) hwnds')))"

text \<open>\<open>_win32_send_ctrl_c_event\<close>, on a list of pids: one console control event each.\<close>

definition win32_send_ctrl_c_event :: "nat list \<Rightarrow> os_action list" where
  "win32_send_ctrl_c_event pids = map (\<lambda>p. GenerateConsoleCtrlEvent 0 p) pids"

text \<open>\<open>win32_send_pid_wm_close(pid)\<close>: the window messages, then the console events.\<close>

definition win32_send_pid_wm_close :: "os_env \<Rightarrow> nat list \<Rightarrow> py_error + os_action list" where
  "win32_send_pid_wm_close os pids =
     (case win32_send_wm_close_hwnd_message os pids of
        Inl e \<Rightarrow> Inl e
      | Inr acts \<Rightarrow> Inr (acts @ win32_send_ctrl_c_event pids))"

definition win32_send_job_wm_close :: "os_env \<Rightarrow> nat option \<Rightarrow> py_error + os_action list" where
  "win32_send_job_wm_close os job =
     (case job_process_ids os job of
        None \<Rightarrow> Inr []
      | Some pids \<Rightarrow> win32_send_pid_wm_close os pids)"

text \<open>\<open>DrekarSubprocessImpl.send_term(attempt_count)\<close>.\<close>

definition send_term :: "os_env \<Rightarrow> DrekarSubprocessImpl \<Rightarrow> int \<Rightarrow> py_error + os_action list" where
  "send_term os h attempt_count =
     (if platform os = Win32 then
        (if attempt_count > 3 then Inr (win32_send_ctrl_c_event [pid h])
         else win32_send_job_wm_close os (job_handle h))
      else
        (case getpgid os (pid h) of
           None \<Rightarrow> Inl ProcessLookupError
         | Some pgid \<Rightarrow>
             if killpg_raises os pgid then Inl ProcessLookupError
             else Inr [Killpg pgid SIGINT]))"

section \<open>The child supervisor's operations\<close>

text \<open>
  What the group's operations do, in order: the write of the closed flag, the calls of a
  child's \<open>close()\<close> and \<open>kill()\<close>, the \<open>send_term\<close> a close forwards (with the attempt
  count), the kill of the process, and in \<open>wait_all_stopped\<close> the sleeps, the writes
  of \<open>t_last_sent_close\<close> and the notice.
\<close>

datatype event =
    Set_closed
  | Close string
  | Send_term DrekarSubprocessImpl int
  | Kill string
  | Process_kill DrekarSubprocessImpl
  | Async_sleep real
  | Last_sent_close real
  | Print_sigkill
  | Time_sleep real

text \<open>\<open>DrekarProcess.stopped\<close>.\<close>

definition stopped :: "DrekarProcess \<Rightarrow> bool" where
  "stopped p = (process p = None)"

text \<open>
  \<open>DrekarProcess.close()\<close>: the new state, the calls made, and the exception that leaves
  the method, if any (then the counter is not incremented).
\<close>

definition DrekarProcess_close ::
  "os_env \<Rightarrow> DrekarProcess \<Rightarrow> DrekarProcess \<times> event list \<times> py_error option" where
  "DrekarProcess_close os p =
     (let p1 = p\<lparr>keep_going := False\<rparr> in
      case process p1 of
        None \<Rightarrow> (p1, [], None)
      | Some h \<Rightarrow>
          (case send_term os h (term_attempts p1) of
             Inl e \<Rightarrow> (p1, [Send_term h (term_attempts p1)], Some e)
           | Inr _ \<Rightarrow>
               (p1\<lparr>term_attempts := term_attempts p1 + 1\<rparr>,
                [Send_term h (term_attempts p1)], None)))"

text \<open>\<open>DrekarProcess.kill()\<close>: nothing without a process; the state does not change.\<close>

definition DrekarProcess_kill :: "DrekarProcess \<Rightarrow> event list" where
  "DrekarProcess_kill p = (case process p of None \<Rightarrow> [] | Some h \<Rightarrow> [Process_kill h])"

section \<open>The group's operations\<close>

definition do_start :: "DrekarTask \<Rightarrow> DrekarCore \<Rightarrow> DrekarCore" where
  "do_start s c = c\<lparr>subprocesses := dict_set (name s) (DrekarProcess_init s) (subprocesses c)\<rparr>"

definition start_all :: "DrekarCore \<Rightarrow> DrekarCore" where
  "start_all c =
     fold (\<lambda>ns c'. if \<not> dict_contains (fst ns) (subprocesses c') then do_start (snd ns) c' else c')
       (task_launches c) c"

definition start :: "DrekarCore \<Rightarrow> string \<Rightarrow> py_error + DrekarCore" where
  "start c nm =
     (if closed_flag c then Inl AssertionError
      else case dict_get nm (task_launches c) of
        None \<Rightarrow> Inl ArgumentError
      | Some s \<Rightarrow> Inr (if \<not> dict_contains nm (subprocesses c) then do_start s c else c))"

definition process_state_changed :: "DrekarCore \<Rightarrow> string \<Rightarrow> ProcessState \<Rightarrow> DrekarCore" where
  "process_state_changed c process_name state =
     (if closed_flag c then
        (if state = STOPPED then
           (if dict_contains process_name (subprocesses c)
            then c\<lparr>subprocesses := dict_del process_name (subprocesses c)\<rparr>
            else c)
         else c)
      else c)"

text \<open>
  The loop \<open>for p in self._subprocesses.values(): p.close()\<close> of \<open>stop_all\<close>, an exception
  of \<open>close()\<close> caught and printed: the children after it, and the calls made.
\<close>

fun close_each ::
  "os_env \<Rightarrow> (string, DrekarProcess) dict \<Rightarrow> (string, DrekarProcess) dict \<times> event list" where
  "close_each os [] = ([], [])"
| "close_each os ((n, p) # d) =
     (case DrekarProcess_close os p of
        (p', evs, _) \<Rightarrow>
          (case close_each os d of
             (d', evs') \<Rightarrow> ((n, p') # d', Close n # evs @ evs')))"

definition stop_all :: "os_env \<Rightarrow> DrekarCore \<Rightarrow> DrekarCore \<times> event list" where
  "stop_all os c =
     (if closed_flag c then (c, [])
      else
        (let c1 = c\<lparr>closed_flag := True\<rparr> in
         case close_each os (subprocesses c1) of
           (d', evs) \<Rightarrow> (c1\<lparr>subprocesses := d'\<rparr>, Set_closed # evs)))"

definition get_exit_status :: "DrekarCore \<Rightarrow> int" where
  "get_exit_status c =
     fold (\<lambda>p status. if exit_status p \<noteq> 0 then exit_status p else status)
       (dict_values (subprocesses c)) 0"

section \<open>The shutdown loop\<close>

definition running_count :: "DrekarCore \<Rightarrow> nat" where
  "running_count c = length (filter (\<lambda>p. \<not> stopped p) (dict_values (subprocesses c)))"

text \<open>
  The loop of \<open>wait_all_stopped\<close> that calls \<open>close()\<close> again on each child that is not
  stopped, and the loop that calls \<open>kill()\<close> on each of them.
\<close>

fun close_running ::
  "os_env \<Rightarrow> (string, DrekarProcess) dict \<Rightarrow> (string, DrekarProcess) dict \<times> event list" where
  "close_running os [] = ([], [])"
| "close_running os ((n, p) # d) =
     (if \<not> stopped p then
        (case DrekarProcess_close os p of
           (p', evs, _) \<Rightarrow>
             (case close_running os d of
                (d', evs') \<Rightarrow> ((n, p') # d', Close n # evs @ evs')))
      else
        (case close_running os d of (d', evs') \<Rightarrow> ((n, p) # d', evs')))"

fun kill_running :: "(string, DrekarProcess) dict \<Rightarrow> event list" where
  "kill_running [] = []"
| "kill_running ((n, p) # d) =
     (if \<not> stopped p then Kill n # DrekarProcess_kill p @ kill_running d
      else kill_running d)"

text \<open>
  One iteration of the polling loop reads the clock once and, unless it leaves the loop,
  awaits \<open>asyncio.sleep(0.1)\<close>; while it sleeps the children's activities run and change
  the group. A round gives the clock reading (seconds) and that change. The list of rounds
  is what the environment does for as long as it is asked: the loop that is still polling
  when the list ends has not returned (\<open>None\<close>).
\<close>

record round =
  clock :: real
  during_sleep :: "DrekarCore \<Rightarrow> DrekarCore"

fun poll ::
  "os_env \<Rightarrow> real \<Rightarrow> real \<Rightarrow> round list \<Rightarrow> DrekarCore \<Rightarrow>
     (DrekarCore \<times> event list \<times> real) option" where
  "poll os t1 t_last_sent_close [] c = None"
| "poll os t1 t_last_sent_close (r # rs) c =
     (let t_diff = clock r - t1 in
      if t_diff > 15 then Some (c, [], t_diff)
      else if running_count c = 0 then Some (c, [], t_diff)
      else
        (let c1 = during_sleep r c in
         if t_diff > t_last_sent_close + 1 then
           (case close_running os (subprocesses c1) of
              (d', evs) \<Rightarrow>
                map_option
                  (\<lambda>(c', evs', t).
                     (c', Async_sleep (1 / 10) # Last_sent_close t_diff # evs @ evs', t))
                  (poll os t1 t_diff rs (c1\<lparr>subprocesses := d'\<rparr>)))
         else
           map_option (\<lambda>(c', evs', t). (c', Async_sleep (1 / 10) # evs', t))
             (poll os t1 t_last_sent_close rs c1)))"

text \<open>
  \<open>wait_all_stopped\<close>, entered at clock reading \<open>t1\<close>: the group, the calls made, and the
  time since entry at which it returns, counted as the last reading of the clock plus the
  two seconds of \<open>time.sleep(2)\<close> when that is reached.
\<close>

record shutdown =
  core :: DrekarCore
  events :: "event list"
  returned_after :: real

definition wait_all_stopped ::
  "os_env \<Rightarrow> real \<Rightarrow> round list \<Rightarrow> DrekarCore \<Rightarrow> shutdown option" where
  "wait_all_stopped os t1 rounds c =
     (case poll os t1 0 rounds c of
        None \<Rightarrow> None
      | Some (c1, evs, t_diff) \<Rightarrow>
          (if running_count c1 \<noteq> 0 then
             Some \<lparr>core = c1,
                   events = evs @ kill_running (subprocesses c1) @ [Print_sigkill, Time_sleep 2],
                   returned_after = t_diff + 2\<rparr>
           else
             Some \<lparr>core = c1, events = evs @ kill_running (subprocesses c1),
                   returned_after = t_diff\<rparr>))"

section \<open>The child supervisor's activity\<close>

text \<open>
  \<open>DrekarProcess.run\<close> is a coroutine: while it awaits, the group may call \<open>close()\<close> on
  the child. \<open>closes os k p\<close> is the child after k such calls.
\<close>

fun closes :: "os_env \<Rightarrow> nat \<Rightarrow> DrekarProcess \<Rightarrow> DrekarProcess" where
  "closes os 0 p = p"
| "closes os (Suc k) p = closes os k (fst (DrekarProcess_close os p))"

text \<open>
  One pass of the \<open>while self._keep_going\<close> loop is a life of the child. What the
  environment decides in it: whether \<open>create_subprocess_exec\<close> raises or returns a handle,
  whether draining the output and waiting raise or the process exits with a return code,
  and how often \<open>close()\<close> is called while the activity awaits the spawn, the exit and the
  restart backoff.
\<close>

datatype spawn_result = Spawn_raises | Spawned DrekarSubprocessImpl

datatype wait_result = Wait_raises | Exited int

record life =
  spawn :: spawn_result
  closes_in_spawn :: nat
  waited :: wait_result
  closes_in_wait :: nat
  closes_in_backoff :: nat

text \<open>
  The body of the loop up to \<open>self._process = None\<close>: the child after it and the states
  it passed to \<open>process_state_changed\<close>, in order.
\<close>

definition one_life :: "os_env \<Rightarrow> life \<Rightarrow> DrekarProcess \<Rightarrow> DrekarProcess \<times> ProcessState list" where
  "one_life os l p =
     (let evs1 = [START_PENDING] in
      case spawn l of
        Spawn_raises \<Rightarrow>
          (let p1 = closes os (closes_in_spawn l) p;
               p2 = p1\<lparr>process := None\<rparr>;
               evs2 = evs1 @ [STOPPED]
           in (p2\<lparr>process := None\<rparr>, evs2))
      | Spawned h \<Rightarrow>
          (let p1 = (closes os (closes_in_spawn l) p)\<lparr>process := Some h\<rparr>;
               evs2 = evs1 @ [RUNNING];
               p2 = closes os (closes_in_wait l) p1
           in case waited l of
                Wait_raises \<Rightarrow>
                  (let p3 = p2\<lparr>process := None\<rparr>;
                       evs3 = evs2 @ [STOPPED]
                   in (p3\<lparr>process := None\<rparr>, evs3))
              | Exited rc \<Rightarrow>
                  (let p3 = p2\<lparr>exit_status := rc\<rparr>;
                       evs3 = evs2 @ [STOPPED]
                   in (p3\<lparr>process := None\<rparr>, evs3))))"

text \<open>
  The result of the activity over the lives the environment gives: the child, the states
  emitted in each life, whether the activity set the group's exit event, and whether it
  returned (it has not when the lives end while it would spawn again).
\<close>

record activity =
  child :: DrekarProcess
  emitted :: "ProcessState list list"
  exit_event_set :: bool
  returned :: bool

fun run_loop :: "os_env \<Rightarrow> life list \<Rightarrow> DrekarProcess \<Rightarrow> activity" where
  "run_loop os [] p =
     \<lparr>child = p, emitted = [], exit_event_set = False, returned = (\<not> keep_going p)\<rparr>"
| "run_loop os (l # ls) p =
     (if \<not> keep_going p then
        \<lparr>child = p, emitted = [], exit_event_set = False, returned = True\<rparr>
      else
        (case one_life os l p of
           (p1, evs) \<Rightarrow>
             if quit_on_terminate (task_launch p1) then
               \<lparr>child = p1, emitted = [evs], exit_event_set = True, returned = True\<rparr>
             else if \<not> restart (task_launch p1) then
               \<lparr>child = p1, emitted = [evs], exit_event_set = False, returned = True\<rparr>
             else
               (let p2 = (if keep_going p1 then closes os (closes_in_backoff l) p1 else p1);
                    a = run_loop os ls p2
                in a\<lparr>emitted := evs # emitted a\<rparr>)))"

text \<open>
  \<open>run\<close>: with a start delay the activity first waits for the exit event or the timeout.
  The code discards which of the two ended the wait (\<open>wake\<close>) and looks at
  \<open>_keep_going\<close> only, which \<open>close()\<close> clears.
\<close>

datatype wake = Exit_event_fired | Timed_out

definition run :: "os_env \<Rightarrow> wake \<Rightarrow> nat \<Rightarrow> life list \<Rightarrow> DrekarProcess \<Rightarrow> activity" where
  "run os w closes_in_delay lives p =
     (if start_delay (task_launch p) > 0 then
        (let p1 = closes os closes_in_delay p in
         if \<not> keep_going p1 then
           \<lparr>child = p1, emitted = [], exit_event_set = False, returned = True\<rparr>
         else run_loop os lives p1)
      else run_loop os lives p)"

text \<open>The group receives the states a child emits, one call each.\<close>

definition deliver :: "DrekarCore \<Rightarrow> string \<Rightarrow> ProcessState list \<Rightarrow> DrekarCore" where
  "deliver c nm states = fold (\<lambda>st c'. process_state_changed c' nm st) states c"

section \<open>The environment file of a task\<close>













section \<open>Reading the recorded calls and states\<close>

text \<open>The children whose \<open>close()\<close> a sequence of calls holds, in order.\<close>

fun closed_children :: "event list \<Rightarrow> string list" where
  "closed_children [] = []"
| "closed_children (Close n # evs) = n # closed_children evs"
| "closed_children (_ # evs) = closed_children evs"

text \<open>The states a completed life emits, by the outcome of its spawn.\<close>

abbreviation life_states :: "life \<Rightarrow> ProcessState list" where
  "life_states l \<equiv>
     (case spawn l of
        Spawn_raises \<Rightarrow> [START_PENDING, STOPPED]
      | Spawned h \<Rightarrow> [START_PENDING, RUNNING, STOPPED])"




section \<open>Concrete inputs\<close>

text \<open>A task, a POSIX system, a child and a group, for the instances below.\<close>

definition example_task :: "string \<Rightarrow> DrekarTask" where
  "example_task nm =
     \<lparr>name = nm, program = ''/bin/sleep'', cwd = ''.'', args = [''60''], restart = False,
      restart_backoff = 5, tags = [], environment = [], start_delay = 0,
      quit_on_terminate = False\<rparr>"

definition example_posix :: os_env where
  "example_posix =
     \<lparr>platform = Linux, job_process_ids = (\<lambda>_. None), top_windows = [],
      enum_windows_ok = True, message_windows = [], getpgid = (\<lambda>p. Some p),
      killpg_raises = (\<lambda>_. False)\<rparr>"

definition example_child :: "string \<Rightarrow> nat option \<Rightarrow> int \<Rightarrow> DrekarProcess" where
  "example_child nm running status =
     \<lparr>task_launch = example_task nm, keep_going = True,
      process = map_option (\<lambda>p. \<lparr>pid = p, job_handle = None\<rparr>) running,
      term_attempts = 0, exit_status = status\<rparr>"

definition example_core :: "(string \<times> DrekarProcess) list \<Rightarrow> DrekarCore" where
  "example_core children =
     \<lparr>task_launches = map (\<lambda>kv. (fst kv, task_launch (snd kv))) children,
      closed_flag = False, subprocesses = children\<rparr>"




text \<open>A life without calls of \<open>close()\<close>, and a child with a start delay of 5 s.\<close>

definition example_life :: "spawn_result \<Rightarrow> wait_result \<Rightarrow> life" where
  "example_life s w =
     \<lparr>spawn = s, closes_in_spawn = 0, waited = w, closes_in_wait = 0, closes_in_backoff = 0\<rparr>"

definition example_delayed :: DrekarProcess where
  "example_delayed = DrekarProcess_init ((example_task ''a'')\<lparr>start_delay := 5\<rparr>)"

text \<open>
  Rounds exactly 100 ms apart in which the children do nothing, and a closed group with
  one child that holds a process.
\<close>

definition example_ticks :: "nat \<Rightarrow> round list" where
  "example_ticks n = map (\<lambda>i. \<lparr>clock = real i / 10, during_sleep = (\<lambda>c. c)\<rparr>) [0..<n]"

definition example_running :: DrekarCore where
  "example_running = (example_core [(''a'', example_child ''a'' (Some 7) (-1))])\<lparr>closed_flag := True\<rparr>"


section \<open>Exit status aggregation\<close>

lemma fold_exit_status_last:
  "fold (\<lambda>p status. if exit_status p \<noteq> 0 then exit_status p else status) ps 0 =
     (if filter (\<lambda>s. s \<noteq> 0) (map exit_status ps) = [] then 0
      else last (filter (\<lambda>s. s \<noteq> 0) (map exit_status ps)))"
  by (induction ps rule: rev_induct) simp_all

text \<open>
  C1. \<open>get_exit_status\<close> returns 0 exactly when every registered child has exit status
  0; otherwise it returns the non-zero exit status that comes last in the iteration order
  of the children.
\<close>

theorem get_exit_status_aggregate:
  "(get_exit_status c = 0 \<longleftrightarrow> (\<forall>p \<in> set (dict_values (subprocesses c)). exit_status p = 0)) \<and>
   (get_exit_status c \<noteq> 0 \<longrightarrow>
      get_exit_status c =
        last (filter (\<lambda>s. s \<noteq> 0) (map exit_status (dict_values (subprocesses c)))))"
proof -
  let ?xs = "filter (\<lambda>s. s \<noteq> 0) (map exit_status (dict_values (subprocesses c)))"
  have eq: "get_exit_status c = (if ?xs = [] then 0 else last ?xs)"
    unfolding get_exit_status_def by (rule fold_exit_status_last)
  have nz: "?xs \<noteq> [] \<Longrightarrow> last ?xs \<noteq> 0"
  proof -
    assume "?xs \<noteq> []"
    then have "last ?xs \<in> set ?xs" by (rule last_in_set)
    then show "last ?xs \<noteq> 0" by simp
  qed
  have empty: "?xs = [] \<longleftrightarrow> (\<forall>p \<in> set (dict_values (subprocesses c)). exit_status p = 0)"
    by (auto simp: filter_empty_conv)
  show ?thesis using eq nz empty by auto
qed

theorem get_exit_status_aggregate_witness:
  "get_exit_status
     (example_core [(''a'', example_child ''a'' None 0), (''b'', example_child ''b'' None 3),
        (''c'', example_child ''c'' None 5), (''d'', example_child ''d'' None 0)]) = 5 \<and>
   get_exit_status
     (example_core [(''a'', example_child ''a'' None 0), (''d'', example_child ''d'' None 0)]) = 0"
  using get_exit_status_aggregate
    [of "example_core [(''a'', example_child ''a'' None 0), (''b'', example_child ''b'' None 3),
        (''c'', example_child ''c'' None 5), (''d'', example_child ''d'' None 0)]"]
    get_exit_status_aggregate
    [of "example_core [(''a'', example_child ''a'' None 0), (''d'', example_child ''d'' None 0)]"]
  by (simp add: get_exit_status_def example_core_def example_child_def dict_values_def)

section \<open>Deregistering a child\<close>

lemma filter_dict_set_other:
  "filter (\<lambda>kv. fst kv \<noteq> n) (dict_set n q d) = filter (\<lambda>kv. fst kv \<noteq> n) d"
  by (induction d) auto

lemma filter_absent_key:
  "\<not> dict_contains n d \<Longrightarrow> filter (\<lambda>kv. fst kv \<noteq> n) d = d"
  by (induction d) (auto simp: dict_contains_def)

lemma stopped_when_closed:
  "closed_flag c \<Longrightarrow>
     subprocesses (process_state_changed c n STOPPED) =
       filter (\<lambda>kv. fst kv \<noteq> n) (subprocesses c)"
  by (simp add: process_state_changed_def dict_del_def filter_absent_key)

section \<open>Closing a child\<close>

lemma close_no_process:
  "process p = None \<Longrightarrow> DrekarProcess_close os p = (p\<lparr>keep_going := False\<rparr>, [], None)"
  by (simp add: DrekarProcess_close_def)

lemma close_returns:
  "process p = Some h \<Longrightarrow> send_term os h (term_attempts p) = Inr acts \<Longrightarrow>
     DrekarProcess_close os p =
       (p\<lparr>keep_going := False, term_attempts := term_attempts p + 1\<rparr>,
        [Send_term h (term_attempts p)], None)"
  by (simp add: DrekarProcess_close_def)

lemma close_raises:
  "process p = Some h \<Longrightarrow> send_term os h (term_attempts p) = Inl e \<Longrightarrow>
     DrekarProcess_close os p =
       (p\<lparr>keep_going := False\<rparr>, [Send_term h (term_attempts p)], Some e)"
  by (simp add: DrekarProcess_close_def)

lemma close_cases:
  obtains "process p = None" "DrekarProcess_close os p = (p\<lparr>keep_going := False\<rparr>, [], None)"
  | h acts where "process p = Some h"
      "DrekarProcess_close os p =
         (p\<lparr>keep_going := False, term_attempts := term_attempts p + 1\<rparr>,
          [Send_term h (term_attempts p)], None)"
  | h e where "process p = Some h"
      "DrekarProcess_close os p =
         (p\<lparr>keep_going := False\<rparr>, [Send_term h (term_attempts p)], Some e)"
proof (cases "process p")
  case None
  then show ?thesis using that(1) close_no_process by blast
next
  case (Some h)
  show ?thesis
  proof (cases "send_term os h (term_attempts p)")
    case (Inl e)
    then show ?thesis using Some that(3) close_raises by blast
  next
    case (Inr acts)
    then show ?thesis using Some that(2) close_returns by blast
  qed
qed

lemma close_process: "process (fst (DrekarProcess_close os p)) = process p"
  by (rule close_cases [of p os]) simp_all

lemma close_term_attempts: "term_attempts p \<le> term_attempts (fst (DrekarProcess_close os p))"
  by (rule close_cases [of p os]) simp_all

lemma closes_process: "process (closes os k p) = process p"
  by (induction k arbitrary: p) (simp_all add: close_process)

lemma closes_term_attempts: "term_attempts p \<le> term_attempts (closes os k p)"
proof (induction k arbitrary: p)
  case 0
  show ?case by simp
next
  case (Suc k)
  have "term_attempts p \<le> term_attempts (fst (DrekarProcess_close os p))"
    by (rule close_term_attempts)
  also have "\<dots> \<le> term_attempts (closes os k (fst (DrekarProcess_close os p)))"
    by (rule Suc.IH)
  finally show ?case by simp
qed

lemma one_life_term_attempts: "term_attempts p \<le> term_attempts (fst (one_life os l p))"
proof -
  have a: "term_attempts p \<le> term_attempts (closes os (closes_in_spawn l) p)"
    by (rule closes_term_attempts)
  have b: "\<And>h. term_attempts (closes os (closes_in_spawn l) p)
      \<le> term_attempts (closes os (closes_in_wait l) ((closes os (closes_in_spawn l) p)\<lparr>process := Some h\<rparr>))"
    using closes_term_attempts [of "(closes os (closes_in_spawn l) p)\<lparr>process := Some h\<rparr>" os "closes_in_wait l" for h]
    by simp
  show ?thesis
    using a b by (auto simp: one_life_def Let_def split: spawn_result.splits wait_result.splits intro: order_trans)
qed

lemma run_loop_term_attempts: "term_attempts p \<le> term_attempts (child (run_loop os ls p))"
proof (induction ls arbitrary: p)
  case Nil
  show ?case by simp
next
  case (Cons l ls)
  obtain p1 evs where ol: "one_life os l p = (p1, evs)" by (cases "one_life os l p")
  have a: "term_attempts p \<le> term_attempts p1"
    using one_life_term_attempts [of p os l] ol by simp
  have b: "term_attempts p1 \<le> term_attempts (closes os (closes_in_backoff l) p1)"
    by (rule closes_term_attempts)
  have c: "term_attempts (closes os (closes_in_backoff l) p1)
      \<le> term_attempts (child (run_loop os ls (closes os (closes_in_backoff l) p1)))"
    by (rule Cons.IH)
  have d: "term_attempts p1 \<le> term_attempts (child (run_loop os ls p1))"
    by (rule Cons.IH)
  show ?case using a b c d by (auto simp: ol Let_def)
qed

lemma run_term_attempts: "term_attempts p \<le> term_attempts (child (run os w k ls p))"
proof -
  have a: "term_attempts p \<le> term_attempts (closes os k p)" by (rule closes_term_attempts)
  have b: "term_attempts (closes os k p) \<le> term_attempts (child (run_loop os ls (closes os k p)))"
    by (rule run_loop_term_attempts)
  have c: "term_attempts p \<le> term_attempts (child (run_loop os ls p))"
    by (rule run_loop_term_attempts)
  show ?thesis using a b c by (auto simp: run_def Let_def)
qed

text \<open>
  C7, as the code has it. Every \<open>close()\<close> clears the keep-going flag. A child that holds
  a process forwards \<open>send_term\<close> with the current attempt count, and the counter is
  incremented when \<open>send_term\<close> returns (the next \<open>close()\<close> then forwards one more); a
  child without a process forwards nothing and keeps its counter. No \<open>close()\<close> and no step
  of the child's activity lowers the counter.
\<close>

theorem close_escalates:
  "keep_going (fst (DrekarProcess_close os p)) = False \<and>
   process (fst (DrekarProcess_close os p)) = process p \<and>
   (process p = None \<longrightarrow>
      DrekarProcess_close os p = (p\<lparr>keep_going := False\<rparr>, [], None)) \<and>
   (\<forall>h. process p = Some h \<longrightarrow>
      fst (snd (DrekarProcess_close os p)) = [Send_term h (term_attempts p)] \<and>
      (\<forall>acts. send_term os h (term_attempts p) = Inr acts \<longrightarrow>
         term_attempts (fst (DrekarProcess_close os p)) = term_attempts p + 1 \<and>
         fst (snd (DrekarProcess_close os (fst (DrekarProcess_close os p)))) =
           [Send_term h (term_attempts p + 1)]) \<and>
      (\<forall>e. send_term os h (term_attempts p) = Inl e \<longrightarrow>
         term_attempts (fst (DrekarProcess_close os p)) = term_attempts p)) \<and>
   term_attempts p \<le> term_attempts (fst (DrekarProcess_close os p)) \<and>
   term_attempts p \<le> term_attempts (closes os k p) \<and>
   term_attempts p \<le> term_attempts (child (run os w k' ls p))"
proof -
  have kg: "keep_going (fst (DrekarProcess_close os p)) = False"
    by (rule close_cases [of p os]) simp_all
  have none: "process p = None \<longrightarrow>
      DrekarProcess_close os p = (p\<lparr>keep_going := False\<rparr>, [], None)"
    by (simp add: close_no_process)
  have some: "\<forall>h. process p = Some h \<longrightarrow>
      fst (snd (DrekarProcess_close os p)) = [Send_term h (term_attempts p)] \<and>
      (\<forall>acts. send_term os h (term_attempts p) = Inr acts \<longrightarrow>
         term_attempts (fst (DrekarProcess_close os p)) = term_attempts p + 1 \<and>
         fst (snd (DrekarProcess_close os (fst (DrekarProcess_close os p)))) =
           [Send_term h (term_attempts p + 1)]) \<and>
      (\<forall>e. send_term os h (term_attempts p) = Inl e \<longrightarrow>
         term_attempts (fst (DrekarProcess_close os p)) = term_attempts p)"
  proof (intro allI impI conjI)
    fix h
    assume h: "process p = Some h"
    show "fst (snd (DrekarProcess_close os p)) = [Send_term h (term_attempts p)]"
      using h by (cases "send_term os h (term_attempts p)") (simp_all add: close_raises close_returns)
  next
    fix h acts
    assume h: "process p = Some h" and r: "send_term os h (term_attempts p) = Inr acts"
    show "term_attempts (fst (DrekarProcess_close os p)) = term_attempts p + 1"
      using h r by (simp add: close_returns)
    have "process (fst (DrekarProcess_close os p)) = Some h"
      using h by (simp add: close_process)
    then show "fst (snd (DrekarProcess_close os (fst (DrekarProcess_close os p)))) =
           [Send_term h (term_attempts p + 1)]"
      using h r
      by (cases "send_term os h (term_attempts p + 1)")
         (simp_all add: close_returns close_raises)
  next
    fix h e
    assume h: "process p = Some h" and r: "send_term os h (term_attempts p) = Inl e"
    show "term_attempts (fst (DrekarProcess_close os p)) = term_attempts p"
      using h r by (simp add: close_raises)
  qed
  show ?thesis
    using kg none some close_process [of os p] close_term_attempts [of p os]
      closes_term_attempts [of p os k] run_term_attempts [of p os w k' ls]
    by blast
qed

theorem close_escalates_witness:
  "DrekarProcess_close example_posix (example_child ''a'' (Some 7) (-1)) =
     ((example_child ''a'' (Some 7) (-1))\<lparr>keep_going := False, term_attempts := 1\<rparr>,
      [Send_term \<lparr>pid = 7, job_handle = None\<rparr> 0], None) \<and>
   fst (snd (DrekarProcess_close example_posix
     (fst (DrekarProcess_close example_posix (example_child ''a'' (Some 7) (-1)))))) =
     [Send_term \<lparr>pid = 7, job_handle = None\<rparr> 1]"
  using close_escalates [of example_posix "example_child ''a'' (Some 7) (-1)" 0 Timed_out 0 "[]"]
  by (simp add: example_child_def example_posix_def DrekarProcess_close_def send_term_def)

text \<open>
  C7 as stated fails on a child that holds no process: \<open>close()\<close> forwards no
  \<open>send_term\<close> and does not increment the counter.
\<close>

theorem close_without_process_counterexample:
  "fst (snd (DrekarProcess_close example_posix (example_child ''a'' None (-1)))) = [] \<and>
   term_attempts (fst (DrekarProcess_close example_posix (example_child ''a'' None (-1)))) =
     term_attempts (example_child ''a'' None (-1))"
  by (simp add: DrekarProcess_close_def example_child_def)

section \<open>Stopping the group\<close>

lemma close_events_no_set_closed: "Set_closed \<notin> set (fst (snd (DrekarProcess_close os p)))"
  by (rule close_cases [of p os]) simp_all

lemma close_events_no_close: "closed_children (fst (snd (DrekarProcess_close os p))) = []"
  by (rule close_cases [of p os]) simp_all

lemma closed_children_append:
  "closed_children (xs @ ys) = closed_children xs @ closed_children ys"
  by (induction xs rule: closed_children.induct) simp_all

lemma close_each_events:
  "Set_closed \<notin> set (snd (close_each os d)) \<and>
   closed_children (snd (close_each os d)) = map fst d"
proof (induction d)
  case Nil
  show ?case by simp
next
  case (Cons kv d)
  obtain n p where kv: "kv = (n, p)" by (cases kv)
  obtain p' evs x where cl: "DrekarProcess_close os p = (p', evs, x)"
    by (cases "DrekarProcess_close os p")
  obtain d' evs' where ce: "close_each os d = (d', evs')" by (cases "close_each os d")
  have a: "Set_closed \<notin> set evs" using close_events_no_set_closed [of os p] cl by simp
  have b: "closed_children evs = []" using close_events_no_close [of os p] cl by simp
  show ?case using Cons a b by (simp add: kv cl ce closed_children_append)
qed

text \<open>
  C8. \<open>stop_all\<close> on a group that is not closed writes the closed flag first and then
  calls \<open>close()\<close> on every registered child, in order; on a closed group it changes
  nothing and calls nothing, so a second \<open>stop_all\<close> does nothing. (The lock that makes the
  method atomic among threads is not part of the model: the method is one step.)
\<close>

theorem stop_all_closes_first:
  "(closed_flag c \<longrightarrow> stop_all os c = (c, [])) \<and>
   (\<not> closed_flag c \<longrightarrow>
      closed_flag (fst (stop_all os c)) \<and>
      (\<exists>evs. snd (stop_all os c) = Set_closed # evs \<and> Set_closed \<notin> set evs \<and>
         closed_children evs = map fst (subprocesses c))) \<and>
   stop_all os (fst (stop_all os c)) = (fst (stop_all os c), [])"
proof -
  obtain d' evs where ce: "close_each os (subprocesses c) = (d', evs)"
    by (cases "close_each os (subprocesses c)")
  have ev: "Set_closed \<notin> set evs \<and> closed_children evs = map fst (subprocesses c)"
    using close_each_events [of os "subprocesses c"] ce by simp
  have open_case: "\<not> closed_flag c \<Longrightarrow>
      stop_all os c = (c\<lparr>closed_flag := True, subprocesses := d'\<rparr>, Set_closed # evs)"
    by (simp add: stop_all_def ce)
  have closed_case: "closed_flag c \<Longrightarrow> stop_all os c = (c, [])"
    by (simp add: stop_all_def)
  have after: "closed_flag (fst (stop_all os c))"
    using open_case closed_case by (cases "closed_flag c") simp_all
  have again: "stop_all os (fst (stop_all os c)) = (fst (stop_all os c), [])"
    using after by (simp add: stop_all_def)
  show ?thesis using open_case closed_case ev after again by auto
qed

theorem stop_all_closes_first_witness:
  "stop_all example_posix
     (example_core [(''a'', example_child ''a'' None (-1)), (''b'', example_child ''b'' (Some 7) (-1))]) =
     ((example_core [(''a'', (example_child ''a'' None (-1))\<lparr>keep_going := False\<rparr>),
        (''b'', (example_child ''b'' (Some 7) (-1))\<lparr>keep_going := False, term_attempts := 1\<rparr>)])
        \<lparr>task_launches := [(''a'', example_task ''a''), (''b'', example_task ''b'')],
          closed_flag := True\<rparr>,
      [Set_closed, Close ''a'', Close ''b'', Send_term \<lparr>pid = 7, job_handle = None\<rparr> 0]) \<and>
   snd (stop_all example_posix (fst (stop_all example_posix
     (example_core [(''a'', example_child ''a'' None (-1)), (''b'', example_child ''b'' (Some 7) (-1))])))) = []"
  using stop_all_closes_first [of
     "example_core [(''a'', example_child ''a'' None (-1)), (''b'', example_child ''b'' (Some 7) (-1))]"
     example_posix]
  by (simp add: stop_all_def example_core_def example_child_def example_posix_def
      DrekarProcess_close_def send_term_def)

section \<open>Starting children\<close>

lemma start_fails_when_closed: "closed_flag c \<Longrightarrow> start c nm = Inl AssertionError"
  by (simp add: start_def)

text \<open>
  C6 holds for \<open>start\<close> and fails for \<open>start_all\<close>, which does not look at the closed
  flag: after \<open>stop_all\<close>, and once the child ''a'' has stopped and is deregistered,
  \<open>start ''a''\<close> fails but \<open>start_all\<close> registers a new supervisor for ''a''.
\<close>

theorem start_all_after_stop_all:
  "closed_flag (fst (stop_all example_posix (start_all (DrekarCore_init [example_task ''a''])))) \<and>
   subprocesses (process_state_changed
      (fst (stop_all example_posix (start_all (DrekarCore_init [example_task ''a''])))) ''a'' STOPPED) = [] \<and>
   start (process_state_changed
      (fst (stop_all example_posix (start_all (DrekarCore_init [example_task ''a''])))) ''a'' STOPPED) ''a''
     = Inl AssertionError \<and>
   subprocesses (start_all (process_state_changed
      (fst (stop_all example_posix (start_all (DrekarCore_init [example_task ''a''])))) ''a'' STOPPED))
     = [(''a'', DrekarProcess_init (example_task ''a''))]"
  by (simp add: stop_all_def start_all_def DrekarCore_init_def example_task_def do_start_def
      dict_contains_def DrekarProcess_init_def DrekarProcess_close_def process_state_changed_def
      dict_del_def start_def)

section \<open>Soft stop on win32\<close>











section \<open>The environment of a task with an environment file\<close>












section \<open>The states a child emits\<close>

lemma one_life_states: "snd (one_life os l p) = life_states l"
  by (simp add: one_life_def Let_def split: spawn_result.splits wait_result.splits)

lemma run_loop_emitted:
  "\<exists>n \<le> length ls. emitted (run_loop os ls p) = map life_states (take n ls)"
proof (induction ls arbitrary: p)
  case Nil
  show ?case by simp
next
  case (Cons l ls)
  obtain p1 evs where ol: "one_life os l p = (p1, evs)" by (cases "one_life os l p")
  have evs: "evs = life_states l" using one_life_states [of os l p] ol by simp
  let ?p2 = "if keep_going p1 then closes os (closes_in_backoff l) p1 else p1"
  obtain n where n: "n \<le> length ls" "emitted (run_loop os ls ?p2) = map life_states (take n ls)"
    using Cons.IH [of ?p2] by blast
  show ?case
  proof (cases "keep_going p")
    case False
    then have "emitted (run_loop os (l # ls) p) = map life_states (take 0 (l # ls))" by simp
    then show ?thesis by blast
  next
    case True
    show ?thesis
    proof (cases "quit_on_terminate (task_launch p1) \<or> \<not> restart (task_launch p1)")
      case stop: True
      then have "emitted (run_loop os (l # ls) p) = map life_states (take 1 (l # ls))"
        using True ol evs by auto
      moreover have "1 \<le> length (l # ls)" by simp
      ultimately show ?thesis by blast
    next
      case go: False
      then have "emitted (run_loop os (l # ls) p) = map life_states (take (Suc n) (l # ls))"
        using True ol evs n by (simp add: Let_def)
      moreover have "Suc n \<le> length (l # ls)" using n by simp
      ultimately show ?thesis by blast
    qed
  qed
qed

text \<open>
  C4, as the code has it. A life emits START_PENDING, RUNNING, STOPPED when the spawn
  returns a process and START_PENDING, STOPPED when the spawn raises (the handler of the
  exception emits STOPPED); the activity emits such a sequence for each life it runs, in
  order. The states of a life are a prefix of START_PENDING, RUNNING, STOPPED exactly when
  its spawn did not raise.
\<close>

theorem life_state_events:
  "snd (one_life os l p) =
     (case spawn l of
        Spawn_raises \<Rightarrow> [START_PENDING, STOPPED]
      | Spawned h \<Rightarrow> [START_PENDING, RUNNING, STOPPED]) \<and>
   (\<exists>n \<le> length ls. emitted (run os w k ls p) = map life_states (take n ls)) \<and>
   (prefix (life_states l) [START_PENDING, RUNNING, STOPPED] \<longleftrightarrow> spawn l \<noteq> Spawn_raises)"
proof -
  have a: "snd (one_life os l p) =
     (case spawn l of
        Spawn_raises \<Rightarrow> [START_PENDING, STOPPED]
      | Spawned h \<Rightarrow> [START_PENDING, RUNNING, STOPPED])"
    using one_life_states [of os l p] by simp
  have b: "\<exists>n \<le> length ls. emitted (run os w k ls p) = map life_states (take n ls)"
  proof (cases "0 < start_delay (task_launch p) \<and> \<not> keep_going (closes os k p)")
    case True
    then have "emitted (run os w k ls p) = map life_states (take 0 ls)"
      by (simp add: run_def Let_def)
    then show ?thesis by blast
  next
    case False
    then have "run os w k ls p = run_loop os ls (closes os k p) \<or> run os w k ls p = run_loop os ls p"
      by (auto simp: run_def Let_def)
    then show ?thesis using run_loop_emitted by metis
  qed
  have c: "prefix (life_states l) [START_PENDING, RUNNING, STOPPED] \<longleftrightarrow> spawn l \<noteq> Spawn_raises"
    by (simp add: split: spawn_result.splits)
  show ?thesis using a b c by blast
qed

theorem life_state_events_witness:
  "emitted (run example_posix Timed_out 0
      [example_life Spawn_raises Wait_raises,
       example_life (Spawned \<lparr>pid = 7, job_handle = None\<rparr>) (Exited 0)]
      ((example_child ''a'' None (-1))
         \<lparr>task_launch := (example_task ''a'')\<lparr>restart := True\<rparr>\<rparr>)) =
     [[START_PENDING, STOPPED], [START_PENDING, RUNNING, STOPPED]]"
  using life_state_events [where os = example_posix and w = Timed_out and k = 0
      and l = "example_life Spawn_raises Wait_raises"
      and ls = "[example_life Spawn_raises Wait_raises,
        example_life (Spawned \<lparr>pid = 7, job_handle = None\<rparr>) (Exited 0)]"
      and p = "(example_child ''a'' None (-1))\<lparr>task_launch := (example_task ''a'')\<lparr>restart := True\<rparr>\<rparr>"]
  by (simp add: run_def one_life_def example_life_def example_child_def example_task_def Let_def)

text \<open>
  C4 as stated fails in the life whose spawn raises: RUNNING is skipped before STOPPED.
\<close>

theorem spawn_failure_counterexample:
  "snd (one_life example_posix (example_life Spawn_raises Wait_raises)
     (example_child ''a'' None (-1))) = [START_PENDING, STOPPED] \<and>
   \<not> prefix [START_PENDING, STOPPED] [START_PENDING, RUNNING, STOPPED]"
  by (simp add: one_life_def example_life_def Let_def)

section \<open>A child closed during its start delay\<close>

lemma closes_no_process:
  "process p = None \<Longrightarrow> 0 < k \<Longrightarrow> closes os k p = p\<lparr>keep_going := False\<rparr>"
proof (induction k arbitrary: p)
  case 0
  then show ?case by simp
next
  case (Suc k)
  show ?case
  proof (cases k)
    case 0
    then show ?thesis using Suc.prems by (simp add: close_no_process)
  next
    case (Suc j)
    then have "closes os k (p\<lparr>keep_going := False\<rparr>) = p\<lparr>keep_going := False\<rparr>"
      using Suc.IH [of "p\<lparr>keep_going := False\<rparr>"] Suc.prems by simp
    then show ?thesis using Suc.prems by (simp add: close_no_process)
  qed
qed

lemma all_minus_one:
  "q \<in> set ps \<Longrightarrow> exit_status q = -1 \<Longrightarrow>
   \<forall>r \<in> set ps. exit_status r = 0 \<or> exit_status r = -1 \<Longrightarrow>
     fold (\<lambda>p status. if exit_status p \<noteq> 0 then exit_status p else status) ps 0 = -1"
proof -
  assume q: "q \<in> set ps" "exit_status q = -1"
    and all: "\<forall>r \<in> set ps. exit_status r = 0 \<or> exit_status r = -1"
  let ?xs = "filter (\<lambda>s. s \<noteq> 0) (map exit_status ps)"
  have "-1 \<in> set ?xs" using q by force
  then have ne: "?xs \<noteq> []" by (metis empty_iff list.set(1))
  then have "last ?xs \<in> set ?xs" by (rule last_in_set)
  then have "last ?xs = -1" using all by auto
  then show ?thesis using ne by (simp add: fold_exit_status_last)
qed

text \<open>
  C10, as the code has it. The activity looks at the keep-going flag when the wait of the
  start delay ends, not at the exit event. A child on which \<open>close()\<close> was called during
  its start delay returns without a life: it emits no state, so the group does not
  deregister it, and its exit status stays -1; the group's exit status is then -1 when
  every registered child has exit status 0 or -1.
\<close>

theorem closed_in_start_delay:
  "0 < start_delay (task_launch p) \<Longrightarrow> 0 < k \<Longrightarrow> process p = None \<Longrightarrow> exit_status p = -1 \<Longrightarrow>
     run os w k ls p =
       \<lparr>child = p\<lparr>keep_going := False\<rparr>, emitted = [], exit_event_set = False, returned = True\<rparr> \<and>
     exit_status (child (run os w k ls p)) = -1 \<and>
     deliver c n (concat (emitted (run os w k ls p))) = c \<and>
     ((n, child (run os w k ls p)) \<in> set (subprocesses c) \<and>
      (\<forall>q \<in> set (dict_values (subprocesses c)). exit_status q = 0 \<or> exit_status q = -1) \<longrightarrow>
        get_exit_status c = -1)"
proof -
  assume d: "0 < start_delay (task_launch p)" and k: "0 < k" and np: "process p = None"
    and es: "exit_status p = -1"
  have cl: "closes os k p = p\<lparr>keep_going := False\<rparr>" using np k by (rule closes_no_process)
  have r: "run os w k ls p =
       \<lparr>child = p\<lparr>keep_going := False\<rparr>, emitted = [], exit_event_set = False, returned = True\<rparr>"
    using d by (simp add: run_def cl)
  have st: "exit_status (child (run os w k ls p)) = -1" using r es by simp
  have dl: "deliver c n (concat (emitted (run os w k ls p))) = c"
    using r by (simp add: deliver_def)
  have agg: "(n, child (run os w k ls p)) \<in> set (subprocesses c) \<and>
      (\<forall>q \<in> set (dict_values (subprocesses c)). exit_status q = 0 \<or> exit_status q = -1) \<longrightarrow>
        get_exit_status c = -1"
  proof
    assume h: "(n, child (run os w k ls p)) \<in> set (subprocesses c) \<and>
      (\<forall>q \<in> set (dict_values (subprocesses c)). exit_status q = 0 \<or> exit_status q = -1)"
    then have "child (run os w k ls p) \<in> set (dict_values (subprocesses c))"
      by (force simp: dict_values_def)
    then show "get_exit_status c = -1"
      unfolding get_exit_status_def using st h by (intro all_minus_one) auto
  qed
  show ?thesis using r st dl agg by blast
qed

theorem closed_in_start_delay_witness:
  "run example_posix Exit_event_fired 1
     [example_life (Spawned \<lparr>pid = 7, job_handle = None\<rparr>) (Exited 0)] example_delayed =
     \<lparr>child = example_delayed\<lparr>keep_going := False\<rparr>, emitted = [], exit_event_set = False,
      returned = True\<rparr> \<and>
   get_exit_status
     (example_core [(''a'', example_delayed\<lparr>keep_going := False\<rparr>),
        (''b'', example_child ''b'' None 0)]) = -1"
  using closed_in_start_delay [where os = example_posix and w = Exit_event_fired and k = 1
      and ls = "[example_life (Spawned \<lparr>pid = 7, job_handle = None\<rparr>) (Exited 0)]"
      and p = example_delayed and n = "''a''"
      and c = "example_core [(''a'', example_delayed\<lparr>keep_going := False\<rparr>),
        (''b'', example_child ''b'' None 0)]"]
  by (simp add: example_delayed_def DrekarProcess_init_def example_task_def example_core_def
      example_child_def dict_values_def)

text \<open>
  C10 as stated fails when the exit event ends the wait of the start delay before
  \<open>close()\<close> is called on the child: the keep-going flag is still set, and the child spawns.
\<close>

theorem exit_event_in_start_delay_counterexample:
  "emitted (run example_posix Exit_event_fired 0
     [example_life (Spawned \<lparr>pid = 7, job_handle = None\<rparr>) (Exited 0)] example_delayed) =
     [[START_PENDING, RUNNING, STOPPED]]"
  by (simp add: run_def one_life_def example_life_def example_delayed_def DrekarProcess_init_def
      example_task_def Let_def)

section \<open>The bounded shutdown\<close>





lemma poll_leave:
  "15 < clock r - t1 \<or> running_count c = 0 \<Longrightarrow>
     poll os t1 tl0 (r # rs) c = Some (c, [], clock r - t1)"
  by (auto simp: Let_def)

lemma poll_close:
  "\<not> 15 < clock r - t1 \<Longrightarrow> running_count c \<noteq> 0 \<Longrightarrow> tl0 + 1 < clock r - t1 \<Longrightarrow>
   close_running os (subprocesses (during_sleep r c)) = (d', cevs) \<Longrightarrow>
     poll os t1 tl0 (r # rs) c =
       map_option
         (\<lambda>(c', evs', t).
            (c', Async_sleep (1 / 10) # Last_sent_close (clock r - t1) # cevs @ evs', t))
         (poll os t1 (clock r - t1) rs ((during_sleep r c)\<lparr>subprocesses := d'\<rparr>))"
  by (simp add: Let_def)

lemma poll_wait:
  "\<not> 15 < clock r - t1 \<Longrightarrow> running_count c \<noteq> 0 \<Longrightarrow> \<not> tl0 + 1 < clock r - t1 \<Longrightarrow>
     poll os t1 tl0 (r # rs) c =
       map_option (\<lambda>(c', evs', t). (c', Async_sleep (1 / 10) # evs', t))
         (poll os t1 tl0 rs (during_sleep r c))"
  by (simp add: Let_def)

text \<open>The loop returns at the latest in the first round that reads the clock past 15 s.\<close>

lemma poll_returns:
  "i < length rs \<Longrightarrow> 15 < clock (rs ! i) - t1 \<Longrightarrow> poll os t1 tl0 rs c \<noteq> None"
proof (induction rs arbitrary: i tl0 c)
  case Nil
  then show ?case by simp
next
  case (Cons r rs)
  show ?case
  proof (cases "15 < clock r - t1 \<or> running_count c = 0")
    case True
    then show ?thesis by (simp only: poll_leave) simp
  next
    case False
    then obtain j where j: "i = Suc j" using Cons.prems by (cases i) auto
    have ih: "\<And>tl' c'. poll os t1 tl' rs c' \<noteq> None"
      using Cons.IH [of j] Cons.prems j by simp
    obtain d' cevs where cr: "close_running os (subprocesses (during_sleep r c)) = (d', cevs)"
      by (cases "close_running os (subprocesses (during_sleep r c))")
    show ?thesis
    proof (cases "tl0 + 1 < clock r - t1")
      case True
      have "poll os t1 tl0 (r # rs) c =
       map_option
         (\<lambda>(c', evs', t).
            (c', Async_sleep (1 / 10) # Last_sent_close (clock r - t1) # cevs @ evs', t))
         (poll os t1 (clock r - t1) rs ((during_sleep r c)\<lparr>subprocesses := d'\<rparr>))"
        using False True cr by (intro poll_close) auto
      then show ?thesis using ih by simp
    next
      case nc: False
      have "poll os t1 tl0 (r # rs) c =
       map_option (\<lambda>(c', evs', t). (c', Async_sleep (1 / 10) # evs', t))
         (poll os t1 tl0 rs (during_sleep r c))"
        using False nc by (intro poll_wait) auto
      then show ?thesis using ih by simp
    qed
  qed
qed









lemma close_running_children:
  "closed_children (snd (close_running os d)) =
     map fst (filter (\<lambda>kv. \<not> stopped (snd kv)) d)"
proof (induction d)
  case Nil
  show ?case by simp
next
  case (Cons kv d)
  obtain n p where kv: "kv = (n, p)" by (cases kv)
  obtain p' evs x where cl: "DrekarProcess_close os p = (p', evs, x)"
    by (cases "DrekarProcess_close os p")
  obtain d' evs' where cr: "close_running os d = (d', evs')" by (cases "close_running os d")
  have q: "closed_children evs = []" using close_events_no_close [of os p] cl by simp
  show ?case using Cons q by (simp add: kv cl cr closed_children_append)
qed


lemma close_running_each:
  "close_running os d =
     (map (\<lambda>kv. (fst kv, if stopped (snd kv) then snd kv
                           else fst (DrekarProcess_close os (snd kv)))) d,
      concat (map (\<lambda>kv. if stopped (snd kv) then []
                           else Close (fst kv) # fst (snd (DrekarProcess_close os (snd kv)))) d))"
proof (induction d)
  case Nil
  show ?case by simp
next
  case (Cons kv d)
  obtain n p where kv: "kv = (n, p)" by (cases kv)
  obtain p' evs x where cl: "DrekarProcess_close os p = (p', evs, x)"
    by (cases "DrekarProcess_close os p")
  show ?case using Cons by (simp add: kv cl)
qed

lemma poll_close_again:
  "\<not> 15 < clock r - t1 \<Longrightarrow> running_count c \<noteq> 0 \<Longrightarrow> tl0 + 1 < clock r - t1 \<Longrightarrow>
     poll os t1 tl0 (r # rs) c =
       map_option
         (\<lambda>(c', evs', t).
            (c', Async_sleep (1 / 10) # Last_sent_close (clock r - t1) #
                 snd (close_running os (subprocesses (during_sleep r c))) @ evs', t))
         (poll os t1 (clock r - t1) rs
            ((during_sleep r c)
               \<lparr>subprocesses := fst (close_running os (subprocesses (during_sleep r c)))\<rparr>))"
  by (rule poll_close) simp_all






lemma example_ticks_nth: "i < n \<Longrightarrow> clock (example_ticks n ! i) = real i / 10"
  by (simp add: example_ticks_def)

lemma example_ticks_idle: "\<forall>r \<in> set (example_ticks n). during_sleep r = (\<lambda>c. c)"
  by (auto simp: example_ticks_def)


section \<open>Children that stop or are killed during shutdown\<close>

lemma close_events_no_kill: "Kill n \<notin> set (fst (snd (DrekarProcess_close os p)))"
  by (rule close_cases [of p os]) simp_all

lemma close_running_no_kill: "Kill n \<notin> set (snd (close_running os d))"
  by (induction d) (auto simp: close_running_each close_events_no_kill)

lemma poll_no_kill:
  "poll os t1 tl0 rs c = Some (c', evs, t) \<Longrightarrow> Kill n \<notin> set evs"
proof (induction rs arbitrary: tl0 c evs)
  case Nil
  then show ?case by simp
next
  case (Cons r rs)
  let ?t = "clock r - t1"
  show ?case
  proof (cases "15 < ?t \<or> running_count c = 0")
    case True
    then have "poll os t1 tl0 (r # rs) c = Some (c, [], ?t)" by (rule poll_leave)
    then show ?thesis using Cons.prems by simp
  next
    case False
    let ?c1 = "during_sleep r c"
    have quiet: "Kill n \<notin> set (snd (close_running os (subprocesses ?c1)))"
      by (rule close_running_no_kill)
    show ?thesis
    proof (cases "tl0 + 1 < ?t")
      case True
      have "poll os t1 tl0 (r # rs) c =
        map_option
         (\<lambda>(c', evs', t).
            (c', Async_sleep (1 / 10) # Last_sent_close ?t #
                 snd (close_running os (subprocesses ?c1)) @ evs', t))
         (poll os t1 ?t rs
            (?c1\<lparr>subprocesses := fst (close_running os (subprocesses ?c1))\<rparr>))"
        using False True by (intro poll_close_again) auto
      then obtain evs' where
        rec: "poll os t1 ?t rs
            (?c1\<lparr>subprocesses := fst (close_running os (subprocesses ?c1))\<rparr>) = Some (c', evs', t)"
        and evs: "evs = Async_sleep (1 / 10) # Last_sent_close ?t #
                 snd (close_running os (subprocesses ?c1)) @ evs'"
        using Cons.prems by auto
      show ?thesis using Cons.IH [OF rec] evs quiet by simp
    next
      case nc: False
      have "poll os t1 tl0 (r # rs) c =
       map_option (\<lambda>(c', evs', t). (c', Async_sleep (1 / 10) # evs', t))
         (poll os t1 tl0 rs ?c1)"
        using False nc by (intro poll_wait) auto
      then obtain evs' where
        rec: "poll os t1 tl0 rs ?c1 = Some (c', evs', t)"
        and evs: "evs = Async_sleep (1 / 10) # evs'"
        using Cons.prems by auto
      show ?thesis using Cons.IH [OF rec] evs by simp
    qed
  qed
qed

lemma process_kill_no_kill: "Kill n \<notin> set (DrekarProcess_kill p)"
  by (simp add: DrekarProcess_kill_def split: option.splits)

lemma kill_running_registered:
  "Kill n \<in> set (kill_running d) \<Longrightarrow> \<exists>p. (n, p) \<in> set d \<and> \<not> stopped p"
proof (induction d)
  case Nil
  then show ?case by simp
next
  case (Cons kv d)
  obtain m p where kv: "kv = (m, p)" by (cases kv)
  show ?case
  proof (cases "Kill n \<in> set (kill_running d)")
    case True
    then obtain p' where "(n, p') \<in> set d" "\<not> stopped p'" using Cons.IH by blast
    then show ?thesis by auto
  next
    case False
    then have "\<not> stopped p \<and> n = m"
      using Cons.prems kv process_kill_no_kill [of n p] by (auto split: if_splits)
    then show ?thesis using kv by auto
  qed
qed

lemma killed_still_registered:
  "wait_all_stopped os t1 rounds c = Some r \<Longrightarrow> Kill n \<in> set (events r) \<Longrightarrow>
     \<exists>p. (n, p) \<in> set (subprocesses (core r)) \<and> \<not> stopped p"
proof -
  assume w: "wait_all_stopped os t1 rounds c = Some r" and k: "Kill n \<in> set (events r)"
  obtain c' evs t where p: "poll os t1 0 rounds c = Some (c', evs, t)"
    using w by (cases "poll os t1 0 rounds c") (auto simp: wait_all_stopped_def)
  have nk: "Kill n \<notin> set evs" using p by (rule poll_no_kill)
  have "core r = c' \<and> (events r = evs @ kill_running (subprocesses c') @ [Print_sigkill, Time_sleep 2]
      \<or> events r = evs @ kill_running (subprocesses c'))"
    using w p by (auto simp: wait_all_stopped_def split: if_splits)
  then have "core r = c' \<and> Kill n \<in> set (kill_running (subprocesses c'))"
    using k nk by auto
  then show ?thesis using kill_running_registered by blast
qed

lemma only_nonzero_status:
  "p \<in> set ps \<Longrightarrow> \<forall>q \<in> set ps. q \<noteq> p \<longrightarrow> exit_status q = 0 \<Longrightarrow>
     fold (\<lambda>p status. if exit_status p \<noteq> 0 then exit_status p else status) ps 0 = exit_status p"
proof -
  assume p: "p \<in> set ps" and others: "\<forall>q \<in> set ps. q \<noteq> p \<longrightarrow> exit_status q = 0"
  let ?xs = "filter (\<lambda>s. s \<noteq> 0) (map exit_status ps)"
  have all: "\<forall>x \<in> set ?xs. x = exit_status p" using others by auto
  show ?thesis
  proof (cases "?xs = []")
    case True
    then have "exit_status p = 0" using p by (auto simp: filter_empty_conv)
    then show ?thesis using True by (simp add: fold_exit_status_last)
  next
    case False
    then have "last ?xs \<in> set ?xs" by (rule last_in_set)
    then have "last ?xs = exit_status p" using all by blast
    then show ?thesis using False by (simp add: fold_exit_status_last)
  qed
qed

text \<open>
  C2, as the code has it. Once the group is closed, a STOPPED event removes the child
  from the children, and the aggregate exit status after it is the one of the other
  children: it is the same whatever that child's record held. A child that
  \<open>wait_all_stopped\<close> kills is still registered when the method returns, so its recorded
  exit status enters the aggregate: it is the group's exit status when every other
  registered child has exit status 0.
\<close>

theorem deregistered_child_excluded:
  "(closed_flag c \<longrightarrow>
      \<not> dict_contains n (subprocesses (process_state_changed c n STOPPED)) \<and>
      subprocesses (process_state_changed c n STOPPED) =
        filter (\<lambda>kv. fst kv \<noteq> n) (subprocesses c) \<and>
      get_exit_status
        (process_state_changed (c\<lparr>subprocesses := dict_set n q (subprocesses c)\<rparr>) n STOPPED) =
      get_exit_status (process_state_changed c n STOPPED)) \<and>
   (wait_all_stopped os t1 rounds c0 = Some r \<and> Kill n0 \<in> set (events r) \<longrightarrow>
      (\<exists>p. (n0, p) \<in> set (subprocesses (core r)) \<and> \<not> stopped p \<and>
         ((\<forall>q \<in> set (dict_values (subprocesses (core r))). q \<noteq> p \<longrightarrow> exit_status q = 0) \<longrightarrow>
            get_exit_status (core r) = exit_status p)))"
proof (intro conjI impI)
  assume cl: "closed_flag c"
  have s1: "subprocesses (process_state_changed c n STOPPED) =
       filter (\<lambda>kv. fst kv \<noteq> n) (subprocesses c)"
    using cl by (rule stopped_when_closed)
  show "\<not> dict_contains n (subprocesses (process_state_changed c n STOPPED))"
    unfolding s1 by (auto simp: dict_contains_def)
  show "subprocesses (process_state_changed c n STOPPED) =
       filter (\<lambda>kv. fst kv \<noteq> n) (subprocesses c)"
    by (rule s1)
  have "closed_flag (c\<lparr>subprocesses := dict_set n q (subprocesses c)\<rparr>)"
    using cl by simp
  then have "subprocesses
       (process_state_changed (c\<lparr>subprocesses := dict_set n q (subprocesses c)\<rparr>) n STOPPED) =
       filter (\<lambda>kv. fst kv \<noteq> n) (subprocesses c)"
    by (simp add: stopped_when_closed filter_dict_set_other)
  then show "get_exit_status
       (process_state_changed (c\<lparr>subprocesses := dict_set n q (subprocesses c)\<rparr>) n STOPPED) =
     get_exit_status (process_state_changed c n STOPPED)"
    by (simp add: get_exit_status_def s1)
next
  assume "wait_all_stopped os t1 rounds c0 = Some r \<and> Kill n0 \<in> set (events r)"
  then obtain p where p: "(n0, p) \<in> set (subprocesses (core r))" "\<not> stopped p"
    using killed_still_registered by blast
  have mem: "p \<in> set (dict_values (subprocesses (core r)))"
    using p(1) by (force simp: dict_values_def)
  have "(\<forall>q \<in> set (dict_values (subprocesses (core r))). q \<noteq> p \<longrightarrow> exit_status q = 0) \<longrightarrow>
            get_exit_status (core r) = exit_status p"
    unfolding get_exit_status_def using mem only_nonzero_status by blast
  then show "\<exists>p. (n0, p) \<in> set (subprocesses (core r)) \<and> \<not> stopped p \<and>
         ((\<forall>q \<in> set (dict_values (subprocesses (core r))). q \<noteq> p \<longrightarrow> exit_status q = 0) \<longrightarrow>
            get_exit_status (core r) = exit_status p)"
    using p by blast
qed

lemma example_late_shutdown:
  "wait_all_stopped example_posix 0 [\<lparr>clock = 16, during_sleep = (\<lambda>c. c)\<rparr>] example_running =
     Some \<lparr>core = example_running,
           events = [Kill ''a'', Process_kill \<lparr>pid = 7, job_handle = None\<rparr>,
                     Print_sigkill, Time_sleep 2],
           returned_after = 18\<rparr>"
  by (simp add: wait_all_stopped_def example_running_def example_core_def
      example_child_def running_count_def dict_values_def stopped_def DrekarProcess_kill_def)

theorem deregistered_child_excluded_witness:
  "closed_flag ((example_core [(''a'', example_child ''a'' None 0),
       (''b'', example_child ''b'' (Some 7) 3)])\<lparr>closed_flag := True\<rparr>) \<and>
   subprocesses (process_state_changed
     ((example_core [(''a'', example_child ''a'' None 0),
        (''b'', example_child ''b'' (Some 7) 3)])\<lparr>closed_flag := True\<rparr>) ''b'' STOPPED) =
     [(''a'', example_child ''a'' None 0)] \<and>
   get_exit_status (process_state_changed
     ((example_core [(''a'', example_child ''a'' None 0),
        (''b'', example_child ''b'' (Some 7) 3)])\<lparr>closed_flag := True\<rparr>) ''b'' STOPPED) = 0 \<and>
   wait_all_stopped example_posix 0 [\<lparr>clock = 16, during_sleep = (\<lambda>c. c)\<rparr>] example_running =
     Some \<lparr>core = example_running,
           events = [Kill ''a'', Process_kill \<lparr>pid = 7, job_handle = None\<rparr>,
                     Print_sigkill, Time_sleep 2],
           returned_after = 18\<rparr> \<and>
   get_exit_status example_running = -1"
  using example_late_shutdown
    deregistered_child_excluded
    [where c = "(example_core [(''a'', example_child ''a'' None 0),
       (''b'', example_child ''b'' (Some 7) 3)])\<lparr>closed_flag := True\<rparr>" and n = "''b''"
       and q = "example_child ''b'' (Some 7) 3" and os = example_posix and ?t1.0 = 0
       and rounds = "[\<lparr>clock = 16, during_sleep = (\<lambda>c. c)\<rparr>]" and ?c0.0 = example_running
       and ?n0.0 = "''a''"
       and r = "\<lparr>core = example_running,
           events = [Kill ''a'', Process_kill \<lparr>pid = 7, job_handle = None\<rparr>,
                     Print_sigkill, Time_sleep 2],
           returned_after = 18\<rparr>"]
  by (simp add: get_exit_status_def example_core_def example_child_def dict_values_def
      example_running_def)

lemma close_running_keeps:
  "map (\<lambda>kv. (fst kv, process (snd kv), exit_status (snd kv))) (fst (close_running os d)) =
   map (\<lambda>kv. (fst kv, process (snd kv), exit_status (snd kv))) d"
proof -
  have "process (fst (DrekarProcess_close os p)) = process p \<and>
      exit_status (fst (DrekarProcess_close os p)) = exit_status p" for p
    by (rule close_cases [of p os]) simp_all
  then show ?thesis by (simp add: close_running_each)
qed

lemma poll_keeps_children:
  "\<forall>r \<in> set rs. during_sleep r = (\<lambda>c. c) \<Longrightarrow> poll os t1 tl0 rs c = Some (c', evs, t) \<Longrightarrow>
     map (\<lambda>kv. (fst kv, process (snd kv), exit_status (snd kv))) (subprocesses c') =
     map (\<lambda>kv. (fst kv, process (snd kv), exit_status (snd kv))) (subprocesses c)"
proof (induction rs arbitrary: tl0 c evs)
  case Nil
  then show ?case by simp
next
  case (Cons r rs)
  let ?t = "clock r - t1"
  have id: "during_sleep r c = c" using Cons.prems(1) by simp
  have rest: "\<forall>r \<in> set rs. during_sleep r = (\<lambda>c. c)" using Cons.prems(1) by simp
  show ?case
  proof (cases "15 < ?t \<or> running_count c = 0")
    case True
    then have "poll os t1 tl0 (r # rs) c = Some (c, [], ?t)" by (rule poll_leave)
    then show ?thesis using Cons.prems(2) by simp
  next
    case False
    show ?thesis
    proof (cases "tl0 + 1 < ?t")
      case True
      have "poll os t1 tl0 (r # rs) c =
        map_option
         (\<lambda>(c', evs', t).
            (c', Async_sleep (1 / 10) # Last_sent_close ?t #
                 snd (close_running os (subprocesses (during_sleep r c))) @ evs', t))
         (poll os t1 ?t rs
            ((during_sleep r c)\<lparr>subprocesses :=
               fst (close_running os (subprocesses (during_sleep r c)))\<rparr>))"
        using False True by (intro poll_close_again) auto
      then obtain evs' where
        "poll os t1 ?t rs (c\<lparr>subprocesses := fst (close_running os (subprocesses c))\<rparr>) =
           Some (c', evs', t)"
        using Cons.prems(2) id by auto
      then have "map (\<lambda>kv. (fst kv, process (snd kv), exit_status (snd kv))) (subprocesses c') =
          map (\<lambda>kv. (fst kv, process (snd kv), exit_status (snd kv)))
            (subprocesses (c\<lparr>subprocesses := fst (close_running os (subprocesses c))\<rparr>))"
        using Cons.IH rest by blast
      then show ?thesis using close_running_keeps [of os "subprocesses c"] by simp
    next
      case nc: False
      have "poll os t1 tl0 (r # rs) c =
       map_option (\<lambda>(c', evs', t). (c', Async_sleep (1 / 10) # evs', t))
         (poll os t1 tl0 rs (during_sleep r c))"
        using False nc by (intro poll_wait) auto
      then obtain evs' where "poll os t1 tl0 rs c = Some (c', evs', t)"
        using Cons.prems(2) id by auto
      then show ?thesis using Cons.IH rest by blast
    qed
  qed
qed

text \<open>
  C2 as stated fails for a child that has to be killed: with rounds exactly 100 ms apart
  and a child that never stops, the child is killed, stays registered, and the group's
  exit status is the -1 it was created with, where deregistering it would give 0.
\<close>

theorem killed_child_counterexample:
  "map_option (\<lambda>r. (get_exit_status (core r), Kill ''a'' \<in> set (events r)))
     (wait_all_stopped example_posix 0 (example_ticks 152) example_running) = Some (-1, True) \<and>
   get_exit_status (process_state_changed example_running ''a'' STOPPED) = 0"
proof -
  have a: "151 < length (example_ticks 152)" by (simp add: example_ticks_def)
  have b: "15 < clock (example_ticks 152 ! 151) - 0" by (simp add: example_ticks_nth)
  obtain c' evs t where p: "poll example_posix 0 0 (example_ticks 152) example_running = Some (c', evs, t)"
    using poll_returns [OF a b, of example_posix 0 example_running] by auto
  have "map (\<lambda>kv. (fst kv, process (snd kv), exit_status (snd kv))) (subprocesses c') =
     map (\<lambda>kv. (fst kv, process (snd kv), exit_status (snd kv))) (subprocesses example_running)"
    using example_ticks_idle p by (rule poll_keeps_children)
  then have "map (\<lambda>kv. (fst kv, process (snd kv), exit_status (snd kv))) (subprocesses c') =
     [(''a'', Some \<lparr>pid = 7, job_handle = None\<rparr>, -1)]"
    by (simp add: example_running_def example_core_def example_child_def)
  then obtain p0 where sub: "subprocesses c' = [(''a'', p0)]"
    and pr: "process p0 = Some \<lparr>pid = 7, job_handle = None\<rparr>" and es: "exit_status p0 = -1"
    by (cases "subprocesses c'") auto
  have run: "running_count c' = 1"
    using sub pr by (simp add: running_count_def dict_values_def stopped_def)
  have st: "get_exit_status c' = -1"
    using sub es by (simp add: get_exit_status_def dict_values_def)
  have k: "kill_running (subprocesses c') = [Kill ''a'', Process_kill \<lparr>pid = 7, job_handle = None\<rparr>]"
    using sub pr by (simp add: stopped_def DrekarProcess_kill_def)
  have first: "map_option (\<lambda>r. (get_exit_status (core r), Kill ''a'' \<in> set (events r)))
     (wait_all_stopped example_posix 0 (example_ticks 152) example_running) = Some (-1, True)"
    using p run st k by (simp add: wait_all_stopped_def)
  have second: "get_exit_status (process_state_changed example_running ''a'' STOPPED) = 0"
    by (simp add: get_exit_status_def process_state_changed_def example_running_def
        example_core_def example_child_def dict_contains_def dict_del_def dict_values_def)
  show ?thesis using first second by simp
qed

end
